theory Spec2Isabelle
  imports Main "HOL-Library.AList"
begin

section \<open>Go runtime: byte strings, panics and buffered channels\<close>

text \<open>
  A Go \<open>[]byte\<close> or \<open>string\<close> is a list of 8-bit characters.  The line feed
  \<open>'\n'\<close> is the byte \<open>0x0A\<close>.
\<close>

type_synonym bytes = string

definition nl :: char where
  "nl = CHR 0x0A"

text \<open>The run-time panics that the modelled code can raise.\<close>

datatype panic = SendOnClosedChannel | CloseOfClosedChannel | SliceBoundsOutOfRange

text \<open>
  A buffered channel \<open>chan []byte\<close>: the messages waiting in its buffer (oldest first),
  its capacity and whether it has been closed.
\<close>

record chan =
  buf :: "bytes list"
  cap :: nat
  closed :: bool

text \<open>\<open>make(chan []byte, n)\<close>\<close>

definition make_chan :: "nat \<Rightarrow> chan" where
  "make_chan n = \<lparr>buf = [], cap = n, closed = False\<rparr>"

text \<open>\<open>close(ch)\<close>: closing a closed channel panics.\<close>

definition chan_close :: "chan \<Rightarrow> panic + chan" where
  "chan_close ch = (if closed ch then Inl CloseOfClosedChannel else Inr (ch\<lparr>closed := True\<rparr>))"

text \<open>
  \<open>select { case ch <- m: ... default: ... }\<close>: a send on a closed channel panics; otherwise
  the send proceeds when the buffer has room (\<open>Some\<close> of the channel after the send) and the
  \<open>default\<close> branch is taken when it has none (\<open>None\<close>).  The select never blocks.
\<close>

definition chan_try_send :: "chan \<Rightarrow> bytes \<Rightarrow> panic + chan option" where
  "chan_try_send ch m =
     (if closed ch then Inl SendOnClosedChannel
      else if length (buf ch) < cap ch then Inr (Some (ch\<lparr>buf := buf ch @ [m]\<rparr>))
      else Inr None)"

section \<open>client.go: constants and the Client type\<close>

text \<open>\<open>time.Second\<close> as a \<open>time.Duration\<close>, a count of nanoseconds.\<close>

definition second :: int where
  "second = 1000000000"

definition writeWait :: int where
  "writeWait = 10 * second"

definition pongWait :: int where
  "pongWait = 60 * second"

definition pingPeriod :: int where
  "pingPeriod = (pongWait * 9) div 10"

definition maxMessageSize :: nat where
  "maxMessageSize = 1024"

text \<open>
  A \<open>*Client\<close> is an address; the \<open>Client\<close> it points to holds the nickname and the
  \<open>send\<close> channel.  The fields \<open>hub\<close> (the one hub) and \<open>conn\<close> (the connection, which
  appears below as the bytes read from it) carry no state of their own here.
\<close>

type_synonym client_ref = nat

record client =
  nickname :: string
  send :: chan

definition newClient :: "string \<Rightarrow> client" where
  "newClient nick = \<lparr>nickname = nick, send = make_chan 256\<rparr>"

section \<open>hub.go: the Hub and its event loop\<close>

text \<open>
  The hub owns the map \<open>clients : map[*Client]bool\<close>, kept as an association list whose
  order stands for the unspecified iteration order of a Go map.  The store \<open>heap\<close> holds
  the \<open>Client\<close> objects that the keys point to.  The three unbuffered channels of the hub
  are the events that \<open>Run\<close> receives.
\<close>

record hub_state =
  clients :: "(client_ref \<times> bool) list"
  heap :: "client_ref \<Rightarrow> client"

datatype event = Register client_ref | Unregister client_ref | Broadcast bytes

definition NewHub :: "(client_ref \<Rightarrow> client) \<Rightarrow> hub_state" where
  "NewHub hp = \<lparr>clients = [], heap = hp\<rparr>"

definition registered :: "hub_state \<Rightarrow> client_ref \<Rightarrow> bool" where
  "registered s c = (map_of (clients s) c \<noteq> None)"

definition set_send :: "client_ref \<Rightarrow> chan \<Rightarrow> hub_state \<Rightarrow> hub_state" where
  "set_send c ch s = s\<lparr>heap := (heap s)(c := (heap s c)\<lparr>send := ch\<rparr>)\<rparr>"

text \<open>
  The \<open>for client := range h.clients\<close> loop of the broadcast branch, over the keys present
  when the loop starts.  The body removes no key but the current one, so every key is
  visited exactly once.
\<close>

fun broadcast_loop :: "client_ref list \<Rightarrow> bytes \<Rightarrow> hub_state \<Rightarrow> panic + hub_state" where
  "broadcast_loop [] m s = Inr s"
| "broadcast_loop (c # cs) m s =
     (case chan_try_send (send (heap s c)) m of
        Inl p \<Rightarrow> Inl p
      | Inr (Some ch') \<Rightarrow> broadcast_loop cs m (set_send c ch' s)
      | Inr None \<Rightarrow>
          (case chan_close (send (heap s c)) of
             Inl p \<Rightarrow> Inl p
           | Inr ch' \<Rightarrow>
               broadcast_loop cs m
                 ((set_send c ch' s)\<lparr>clients := AList.delete c (clients s)\<rparr>)))"

text \<open>One iteration of the \<open>for { select { ... } }\<close> loop of \<open>Hub.Run\<close>.\<close>

fun hub_step :: "hub_state \<Rightarrow> event \<Rightarrow> panic + hub_state" where
  "hub_step s (Register c) = Inr (s\<lparr>clients := AList.update c True (clients s)\<rparr>)"
| "hub_step s (Unregister c) =
     (if registered s c then
        (case chan_close (send (heap s c)) of
           Inl p \<Rightarrow> Inl p
         | Inr ch' \<Rightarrow> Inr ((set_send c ch' s)\<lparr>clients := AList.delete c (clients s)\<rparr>))
      else Inr s)"
| "hub_step s (Broadcast m) = broadcast_loop (map fst (clients s)) m s"

text \<open>
  \<open>Hub.Run\<close> loops for ever; \<open>Run\<close> is the state it has reached after the events
  received so far, in receipt order.  A panic ends the loop.  The outbound pumps receive
  from the queues between the steps of the hub, and never close them.
\<close>

fun Run :: "hub_state \<Rightarrow> event list \<Rightarrow> panic + hub_state" where
  "Run s [] = Inr s"
| "Run s (e # es) = (case hub_step s e of Inl p \<Rightarrow> Inl p | Inr s' \<Rightarrow> Run s' es)"

section \<open>bufio: reading a delimited line\<close>

text \<open>
  The bytes that a connection delivers before its read fails (end of stream, deadline
  exceeded, or any other error) are a finite list.  \<open>bufio.Reader.ReadBytes(delim)\<close> and
  \<open>ReadString(delim)\<close> return the data up to and including the first delimiter, however long
  that is, and leave the rest unread; when the input ends before a delimiter they return
  an error.  The kind of the error only selects a log message in the callers.
\<close>

datatype read_error = ReadFailed

definition ReadBytes :: "char \<Rightarrow> bytes \<Rightarrow> read_error + (bytes \<times> bytes)" where
  "ReadBytes delim inp =
     (case dropWhile (\<lambda>b. b \<noteq> delim) inp of
        [] \<Rightarrow> Inl ReadFailed
      | d # rest \<Rightarrow> Inr (takeWhile (\<lambda>b. b \<noteq> delim) inp @ [d], rest))"

definition ReadString :: "char \<Rightarrow> bytes \<Rightarrow> read_error + (string \<times> bytes)" where
  "ReadString = ReadBytes"

section \<open>client.go: the inbound pump\<close>

text \<open>\<open>fmt.Sprintf("[%s]: %s", c.nickname, line)\<close>\<close>

definition format_message :: "string \<Rightarrow> bytes \<Rightarrow> bytes" where
  "format_message nick line = ''['' @ nick @ '']: '' @ line"

text \<open>
  The \<open>for\<close> loop of \<open>readPump\<close>, as the list of events it sends to the hub: one broadcast
  for each line read, until a read fails.
\<close>

function readPump_loop :: "string \<Rightarrow> bytes \<Rightarrow> event list" where
  "readPump_loop nick inp =
     (case ReadBytes nl inp of
        Inl err \<Rightarrow> []
      | Inr (line, rest) \<Rightarrow> Broadcast (format_message nick line) # readPump_loop nick rest)"
  by pat_completeness auto
termination
proof (relation "measure (\<lambda>(nick, inp). length inp)")
  show "wf (measure (\<lambda>(nick, inp). length inp))"
    by simp
next
  fix nick :: string and inp :: bytes and x2 line rest
  assume "ReadBytes nl inp = Inr x2" and "(line, rest) = x2"
  then have "dropWhile (\<lambda>b. b \<noteq> nl) inp = nl # rest \<or>
             (\<exists>d. dropWhile (\<lambda>b. b \<noteq> nl) inp = d # rest)"
    by (auto simp: ReadBytes_def split: list.splits)
  then obtain d where "dropWhile (\<lambda>b. b \<noteq> nl) inp = d # rest"
    by blast
  then have "length rest < length inp"
    using length_dropWhile_le[of "\<lambda>b. b \<noteq> nl" inp] by simp
  then show "((nick, rest), (nick, inp)) \<in> measure (\<lambda>(nick, inp). length inp)"
    by simp
qed

declare readPump_loop.simps [simp del]

text \<open>
  \<open>readPump\<close>: the loop, then the deferred function, which sends the client itself on
  \<open>unregister\<close> and closes the connection.
\<close>

definition readPump :: "client_ref \<Rightarrow> client \<Rightarrow> bytes \<Rightarrow> event list" where
  "readPump c cl inp = readPump_loop (nickname cl) inp @ [Unregister c]"

section \<open>server.go: the handshake\<close>

text \<open>The slice expression \<open>s[:n]\<close>, which panics unless \<open>0 \<le> n \<le> len(s)\<close>.\<close>

definition slice_to :: "bytes \<Rightarrow> int \<Rightarrow> panic + bytes" where
  "slice_to s n =
     (if 0 \<le> n \<and> n \<le> int (length s) then Inr (take (nat n) s) else Inl SliceBoundsOutOfRange)"

text \<open>
  \<open>handleConnection\<close> either closes the connection without talking to the hub, or builds
  the client and sends the hub a registration followed by the join message.  Its
  arguments are the address of the new \<open>Client\<close>, whether writing the prompt succeeded,
  and the bytes that the connection delivers.
\<close>

datatype handshake = Abandoned | Joined client "event list"

definition handleConnection :: "client_ref \<Rightarrow> bool \<Rightarrow> bytes \<Rightarrow> panic + handshake" where
  "handleConnection ref prompt_ok inp =
     (if \<not> prompt_ok then Inr Abandoned
      else case ReadString nl inp of
        Inl err \<Rightarrow> Inr Abandoned
      | Inr (line, rest) \<Rightarrow>
          (case slice_to line (int (length line) - 1) of
             Inl p \<Rightarrow> Inl p
           | Inr nick \<Rightarrow>
               Inr (Joined (newClient nick)
                      [Register ref, Broadcast (nick @ '' has joined the chat.'' @ [nl])])))"

section \<open>Predicates on hub states and event sequences\<close>

text \<open>A queue is full when a send on it would block.\<close>

definition full :: "chan \<Rightarrow> bool" where
  "full ch = (\<not> length (buf ch) < cap ch)"

text \<open>
  The state invariant of the hub: the keys of \<open>clients\<close> are unique, as the keys of a map
  are, and the queue of every registered client is open.
\<close>

definition hub_inv :: "hub_state \<Rightarrow> bool" where
  "hub_inv s = (distinct (map fst (clients s)) \<and>
                (\<forall>c. registered s c \<longrightarrow> \<not> closed (send (heap s c))))"

text \<open>What one broadcast does to a registered client: enqueue, or close the full queue.\<close>

definition deliver :: "bytes \<Rightarrow> client \<Rightarrow> client" where
  "deliver m cl = (if length (buf (send cl)) < cap (send cl)
                   then cl\<lparr>send := (send cl)\<lparr>buf := buf (send cl) @ [m]\<rparr>\<rparr>
                   else cl\<lparr>send := (send cl)\<lparr>closed := True\<rparr>\<rparr>)"

text \<open>
  An event sequence is admissible from a state when no registration that the hub gets to
  process names a client whose queue is already closed.
\<close>

fun admissible :: "hub_state \<Rightarrow> event list \<Rightarrow> bool" where
  "admissible s [] = True"
| "admissible s (e # es) =
     ((case e of Register c \<Rightarrow> \<not> closed (send (heap s c)) | _ \<Rightarrow> True) \<and>
      (case hub_step s e of Inl p \<Rightarrow> True | Inr s' \<Rightarrow> admissible s' es))"

text \<open>The clients that an event sequence registers, in order.\<close>

fun registrations :: "event list \<Rightarrow> client_ref list" where
  "registrations [] = []"
| "registrations (Register c # es) = c # registrations es"
| "registrations (_ # es) = registrations es"

text \<open>The outbound queue of a client after a run, when the run did not panic.\<close>

definition queue_of :: "client_ref \<Rightarrow> panic + hub_state \<Rightarrow> bytes list option" where
  "queue_of c r = (case r of Inl p \<Rightarrow> None | Inr s \<Rightarrow> Some (buf (send (heap s c))))"

text \<open>Whether a run ended, without a panic, with the client registered and its queue closed.\<close>

definition registered_with_closed_queue :: "client_ref \<Rightarrow> panic + hub_state \<Rightarrow> bool" where
  "registered_with_closed_queue c r =
     (case r of Inl p \<Rightarrow> False | Inr s \<Rightarrow> registered s c \<and> closed (send (heap s c)))"

text \<open>The events that a connection's handshake sends to the hub.\<close>

definition handshake_events :: "panic + handshake \<Rightarrow> event list" where
  "handshake_events r = (case r of Inr (Joined cl es) \<Rightarrow> es | _ \<Rightarrow> [])"

section \<open>Example states\<close>

text \<open>
  A store with the client of Ann at address 0 and the client of Bo at address 1, as
  \<open>newClient\<close> makes them, and the hub in which both are registered.
\<close>

definition chat_heap :: "client_ref \<Rightarrow> client" where
  "chat_heap c = (if c = 0 then newClient ''Ann'' else if c = 1 then newClient ''Bo''
                  else newClient [])"

definition chat_hub :: hub_state where
  "chat_hub = \<lparr>clients = [(0, True), (1, True)], heap = chat_heap\<rparr>"

text \<open>The same hub when Bo has not drained any of 256 messages.\<close>

definition slow_hub :: hub_state where
  "slow_hub = set_send 1 ((make_chan 256)\<lparr>buf := replicate 256 ''x''\<rparr>) chat_hub"

section \<open>The hub: one step and whole runs\<close>

lemma registered_iff: "registered s c \<longleftrightarrow> c \<in> set (map fst (clients s))"
  by (simp add: registered_def map_of_eq_None_iff)

lemma heap_set_send [simp]:
  "heap (set_send d ch s) = (heap s)(d := (heap s d)\<lparr>send := ch\<rparr>)"
  by (simp add: set_send_def)

lemma clients_set_send [simp]: "clients (set_send d ch s) = clients s"
  by (simp add: set_send_def)

lemma broadcast_loop_closed_form:
  "distinct cs \<Longrightarrow> \<forall>c \<in> set cs. \<not> closed (send (heap s c)) \<Longrightarrow>
   broadcast_loop cs m s =
     Inr (s\<lparr>clients := filter (\<lambda>kv. \<not> (fst kv \<in> set cs \<and> full (send (heap s (fst kv))))) (clients s),
            heap := (\<lambda>c. if c \<in> set cs then deliver m (heap s c) else heap s c)\<rparr>)"
proof (induction cs arbitrary: s)
  case Nil
  then show ?case by simp
next
  case (Cons c cs)
  show ?case
  proof (cases "length (buf (send (heap s c))) < cap (send (heap s c))")
    case True
    let ?s1 = "set_send c ((send (heap s c))\<lparr>buf := buf (send (heap s c)) @ [m]\<rparr>) s"
    have 1: "\<forall>d \<in> set cs. \<not> closed (send (heap ?s1 d))"
      using Cons.prems by (auto simp: set_send_def)
    have "broadcast_loop (c # cs) m s = broadcast_loop cs m ?s1"
      using Cons.prems True by (simp add: chan_try_send_def)
    also have "\<dots> = Inr (?s1\<lparr>clients := filter (\<lambda>kv. \<not> (fst kv \<in> set cs \<and> full (send (heap ?s1 (fst kv))))) (clients ?s1),
            heap := (\<lambda>d. if d \<in> set cs then deliver m (heap ?s1 d) else heap ?s1 d)\<rparr>)"
      using Cons.IH[OF _ 1] Cons.prems by simp
    also have "\<dots> = Inr (s\<lparr>clients := filter (\<lambda>kv. \<not> (fst kv \<in> set (c # cs) \<and> full (send (heap s (fst kv))))) (clients s),
            heap := (\<lambda>d. if d \<in> set (c # cs) then deliver m (heap s d) else heap s d)\<rparr>)"
    proof -
      have f: "filter (\<lambda>kv. \<not> (fst kv \<in> set cs \<and> full (send (heap ?s1 (fst kv))))) (clients ?s1)
             = filter (\<lambda>kv. \<not> (fst kv \<in> set (c # cs) \<and> full (send (heap s (fst kv))))) (clients s)"
        using Cons.prems True by (auto simp: set_send_def full_def intro!: filter_cong)
      have h: "(\<lambda>d. if d \<in> set cs then deliver m (heap ?s1 d) else heap ?s1 d)
             = (\<lambda>d. if d \<in> set (c # cs) then deliver m (heap s d) else heap s d)"
        using Cons.prems True by (auto simp: set_send_def deliver_def fun_eq_iff)
      show ?thesis unfolding f h by (simp add: set_send_def)
    qed
    finally show ?thesis .
  next
    case False
    let ?s1 = "(set_send c ((send (heap s c))\<lparr>closed := True\<rparr>) s)\<lparr>clients := AList.delete c (clients s)\<rparr>"
    have 1: "\<forall>d \<in> set cs. \<not> closed (send (heap ?s1 d))"
      using Cons.prems by (auto simp: set_send_def)
    have "broadcast_loop (c # cs) m s = broadcast_loop cs m ?s1"
      using Cons.prems False by (simp add: chan_try_send_def chan_close_def)
    also have "\<dots> = Inr (?s1\<lparr>clients := filter (\<lambda>kv. \<not> (fst kv \<in> set cs \<and> full (send (heap ?s1 (fst kv))))) (clients ?s1),
            heap := (\<lambda>d. if d \<in> set cs then deliver m (heap ?s1 d) else heap ?s1 d)\<rparr>)"
      using Cons.IH[OF _ 1] Cons.prems by simp
    also have "\<dots> = Inr (s\<lparr>clients := filter (\<lambda>kv. \<not> (fst kv \<in> set (c # cs) \<and> full (send (heap s (fst kv))))) (clients s),
            heap := (\<lambda>d. if d \<in> set (c # cs) then deliver m (heap s d) else heap s d)\<rparr>)"
    proof -
      have f: "filter (\<lambda>kv. \<not> (fst kv \<in> set cs \<and> full (send (heap ?s1 (fst kv))))) (clients ?s1)
             = filter (\<lambda>kv. \<not> (fst kv \<in> set (c # cs) \<and> full (send (heap s (fst kv))))) (clients s)"
        using Cons.prems False by (auto simp: set_send_def full_def AList.delete_eq intro!: filter_cong)
      have h: "(\<lambda>d. if d \<in> set cs then deliver m (heap ?s1 d) else heap ?s1 d)
             = (\<lambda>d. if d \<in> set (c # cs) then deliver m (heap s d) else heap s d)"
        using Cons.prems False by (auto simp: set_send_def deliver_def fun_eq_iff)
      show ?thesis unfolding f h by (simp add: set_send_def)
    qed
    finally show ?thesis .
  qed
qed

lemma hub_step_broadcast:
  assumes "hub_inv s"
  shows "hub_step s (Broadcast m) =
     Inr (s\<lparr>clients := filter (\<lambda>kv. \<not> full (send (heap s (fst kv)))) (clients s),
            heap := (\<lambda>c. if registered s c then deliver m (heap s c) else heap s c)\<rparr>)"
proof -
  have f: "filter (\<lambda>kv. \<not> (fst kv \<in> set (map fst (clients s)) \<and> full (send (heap s (fst kv))))) (clients s)
         = filter (\<lambda>kv. \<not> full (send (heap s (fst kv)))) (clients s)"
    by (rule filter_cong) auto
  have h: "(\<lambda>c. if c \<in> set (map fst (clients s)) then deliver m (heap s c) else heap s c)
         = (\<lambda>c. if registered s c then deliver m (heap s c) else heap s c)"
    by (simp add: registered_iff)
  show ?thesis
    using assms broadcast_loop_closed_form[of "map fst (clients s)" s m]
    unfolding f h by (simp add: hub_inv_def registered_iff)
qed

lemma registered_delete:
  "registered (t\<lparr>clients := AList.delete d al\<rparr>) c \<longleftrightarrow> c \<noteq> d \<and> map_of al c \<noteq> None"
  by (simp add: registered_def AList.delete_conv')

lemma registered_set_send [simp]: "registered (set_send d ch s) c = registered s c"
  by (simp add: registered_def set_send_def)

text \<open>
  Claim C1.  A broadcast never blocks and always completes.  Every registered client
  whose queue is full is removed from \<open>clients\<close> and its queue is closed, during this
  very broadcast and with its buffer untouched; every registered client whose queue has
  room gets the message appended and stays registered; clients that are not registered
  are not touched.
\<close>

theorem broadcast_evicts_slow_consumers:
  assumes "hub_inv s"
  shows "\<exists>s'. hub_step s (Broadcast m) = Inr s' \<and>
     (\<forall>c. registered s c \<and> full (send (heap s c)) \<longrightarrow>
            \<not> registered s' c \<and> closed (send (heap s' c)) \<and>
            buf (send (heap s' c)) = buf (send (heap s c))) \<and>
     (\<forall>c. registered s c \<and> \<not> full (send (heap s c)) \<longrightarrow>
            registered s' c \<and> \<not> closed (send (heap s' c)) \<and>
            buf (send (heap s' c)) = buf (send (heap s c)) @ [m]) \<and>
     (\<forall>c. \<not> registered s c \<longrightarrow> \<not> registered s' c \<and> heap s' c = heap s c)"
proof -
  have open_reg: "\<And>c. registered s c \<Longrightarrow> \<not> closed (send (heap s c))"
    using assms by (simp add: hub_inv_def)
  define s' where "s' = s\<lparr>clients := filter (\<lambda>kv. \<not> full (send (heap s (fst kv)))) (clients s),
            heap := (\<lambda>c. if registered s c then deliver m (heap s c) else heap s c)\<rparr>"
  have step: "hub_step s (Broadcast m) = Inr s'"
    unfolding s'_def by (rule hub_step_broadcast[OF assms])
  have reg': "\<And>c. registered s' c \<longleftrightarrow> registered s c \<and> \<not> full (send (heap s c))"
    by (auto simp: registered_iff s'_def)
  have heap': "\<And>c. heap s' c = (if registered s c then deliver m (heap s c) else heap s c)"
    by (simp add: s'_def)
  show ?thesis
    using step by (auto simp: reg' heap' deliver_def full_def dest: open_reg)
qed

theorem broadcast_evicts_slow_consumers_witness:
  "hub_inv slow_hub \<and>
   (\<exists>s'. hub_step slow_hub (Broadcast ''hi'') = Inr s' \<and>
      \<not> registered s' 1 \<and> closed (send (heap s' 1)) \<and>
      registered s' 0 \<and> buf (send (heap s' 0)) = [''hi''] \<and>
      heap s' 5 = chat_heap 5)"
proof -
  have inv: "hub_inv slow_hub"
    by (simp add: hub_inv_def slow_hub_def chat_hub_def chat_heap_def registered_def
                  newClient_def make_chan_def)
  have bo: "registered slow_hub 1 \<and> full (send (heap slow_hub 1))"
    by (simp add: slow_hub_def chat_hub_def registered_def full_def make_chan_def)
  have ann: "registered slow_hub 0 \<and> \<not> full (send (heap slow_hub 0)) \<and>
             buf (send (heap slow_hub 0)) = []"
    by (simp add: slow_hub_def chat_hub_def chat_heap_def registered_def full_def
                  newClient_def make_chan_def)
  have other: "\<not> registered slow_hub 5 \<and> heap slow_hub 5 = chat_heap 5"
    by (simp add: slow_hub_def chat_hub_def registered_def)
  show ?thesis
    using inv bo ann other broadcast_evicts_slow_consumers[OF inv, of "''hi''"] by force
qed

lemma Run_append:
  "Run s (es @ fs) = (case Run s es of Inl p \<Rightarrow> Inl p | Inr s' \<Rightarrow> Run s' fs)"
  by (induction es arbitrary: s) (auto split: sum.splits)

lemma Run_registers:
  "\<exists>s'. Run s (map Register cs) = Inr s' \<and> heap s' = heap s \<and>
        set (map fst (clients s')) = set (map fst (clients s)) \<union> set cs \<and>
        (distinct (map fst (clients s)) \<longrightarrow> distinct (map fst (clients s')))"
proof (induction cs arbitrary: s)
  case Nil
  show ?case by simp
next
  case (Cons c cs)
  let ?s1 = "s\<lparr>clients := AList.update c True (clients s)\<rparr>"
  obtain s' where s': "Run ?s1 (map Register cs) = Inr s'" "heap s' = heap ?s1"
      "set (map fst (clients s')) = set (map fst (clients ?s1)) \<union> set cs"
      "distinct (map fst (clients ?s1)) \<longrightarrow> distinct (map fst (clients s'))"
    using Cons.IH[of ?s1] by blast
  have "Run s (map Register (c # cs)) = Inr s'"
    using s'(1) by simp
  moreover have "heap s' = heap s"
    using s'(2) by simp
  moreover have "set (map fst (clients s')) = set (map fst (clients s)) \<union> set (c # cs)"
    using s'(3) by (auto simp: AList.dom_update)
  moreover have "distinct (map fst (clients s)) \<longrightarrow> distinct (map fst (clients s'))"
    using s'(4) by (simp add: AList.distinct_update)
  ultimately show ?case by blast
qed

text \<open>
  Claim C2.  From a new hub, after the registrations of the clients \<open>cs\<close> (none with a
  closed or full queue) and one broadcast of \<open>m\<close>, exactly the clients of \<open>cs\<close> are
  registered and the queue of each of them, the sender's among them, is its old queue
  followed by one copy of \<open>m\<close>; no other client is touched.
\<close>

theorem registrations_then_broadcast:
  assumes "\<forall>c \<in> set cs. \<not> closed (send (hp c)) \<and> length (buf (send (hp c))) < cap (send (hp c))"
  shows "\<exists>s'. Run (NewHub hp) (map Register cs @ [Broadcast m]) = Inr s' \<and>
        (\<forall>c. registered s' c \<longleftrightarrow> c \<in> set cs) \<and>
        (\<forall>c \<in> set cs. send (heap s' c) = (send (hp c))\<lparr>buf := buf (send (hp c)) @ [m]\<rparr>) \<and>
        (\<forall>c. c \<notin> set cs \<longrightarrow> heap s' c = hp c)"
proof -
  obtain s1 where s1: "Run (NewHub hp) (map Register cs) = Inr s1" "heap s1 = hp"
      "set (map fst (clients s1)) = set cs" "distinct (map fst (clients s1))"
    using Run_registers[of "NewHub hp" cs] by (auto simp: NewHub_def)
  have reg1: "\<And>c. registered s1 c \<longleftrightarrow> c \<in> set cs"
    using s1(3) by (simp add: registered_iff)
  have inv1: "hub_inv s1"
    using assms s1 by (simp add: hub_inv_def reg1)
  define s' where "s' = s1\<lparr>clients := filter (\<lambda>kv. \<not> full (send (heap s1 (fst kv)))) (clients s1),
            heap := (\<lambda>c. if registered s1 c then deliver m (heap s1 c) else heap s1 c)\<rparr>"
  have "Run (NewHub hp) (map Register cs @ [Broadcast m]) = Inr s'"
    using s1(1) hub_step_broadcast[OF inv1, of m] by (simp add: Run_append s'_def)
  moreover have "\<And>c. registered s' c \<longleftrightarrow> c \<in> set cs"
  proof -
    fix c
    have "registered s' c \<longleftrightarrow> registered s1 c \<and> \<not> full (send (heap s1 c))"
      by (auto simp: registered_iff s'_def)
    then show "registered s' c \<longleftrightarrow> c \<in> set cs"
      using assms by (auto simp: reg1 s1(2) full_def)
  qed
  moreover have "\<forall>c \<in> set cs. send (heap s' c) = (send (hp c))\<lparr>buf := buf (send (hp c)) @ [m]\<rparr>"
    using assms by (simp add: s'_def reg1 s1(2) deliver_def)
  moreover have "\<forall>c. c \<notin> set cs \<longrightarrow> heap s' c = hp c"
    by (simp add: s'_def reg1 s1(2))
  ultimately show ?thesis by blast
qed

theorem registrations_then_broadcast_witness:
  "\<exists>s'. Run (NewHub chat_heap) (map Register [0, 1, 0] @ [Broadcast ''hi'']) = Inr s' \<and>
        registered s' 0 \<and> registered s' 1 \<and> \<not> registered s' 5 \<and>
        buf (send (heap s' 0)) = [''hi''] \<and> buf (send (heap s' 1)) = [''hi''] \<and>
        heap s' 5 = chat_heap 5"
proof -
  have room: "\<forall>c \<in> set [0, 1, 0]. \<not> closed (send (chat_heap c)) \<and>
                length (buf (send (chat_heap c))) < cap (send (chat_heap c))"
    by (simp add: chat_heap_def newClient_def make_chan_def)
  have empty: "buf (send (chat_heap 0)) = [] \<and> buf (send (chat_heap 1)) = []"
    by (simp add: chat_heap_def newClient_def make_chan_def)
  have other: "(5::nat) \<notin> set [0, 1, 0]"
    by simp
  show ?thesis
    using registrations_then_broadcast[OF room, of "''hi''"] empty other by force
qed

text \<open>
  Claim C3.  Unregistering a client that is not registered returns the state unchanged;
  after any unregistration that returns, the client is not registered and unregistering
  it again changes nothing; so two unregistrations in a row do what one does, and the
  queue is closed once.
\<close>

theorem unregister_absent_is_noop:
  "(\<not> registered s c \<longrightarrow> hub_step s (Unregister c) = Inr s) \<and>
   (\<forall>s'. hub_step s (Unregister c) = Inr s' \<longrightarrow>
          \<not> registered s' c \<and> hub_step s' (Unregister c) = Inr s') \<and>
   Run s [Unregister c, Unregister c] = hub_step s (Unregister c)"
  by (auto simp: registered_delete split: sum.splits if_splits)

theorem unregister_absent_is_noop_witness:
  "\<not> registered chat_hub 7 \<and> hub_step chat_hub (Unregister 7) = Inr chat_hub \<and>
   (\<exists>s'. hub_step chat_hub (Unregister 0) = Inr s' \<and> hub_step s' (Unregister 0) = Inr s')"
proof -
  have absent: "\<not> registered chat_hub 7"
    by (simp add: chat_hub_def registered_def)
  have once: "\<exists>s'. hub_step chat_hub (Unregister 0) = Inr s'"
    by (simp add: chat_hub_def chat_heap_def registered_def chan_close_def newClient_def
                  make_chan_def)
  show ?thesis
    using absent once unregister_absent_is_noop[of chat_hub 7]
          unregister_absent_is_noop[of chat_hub 0]
    by blast
qed

lemma hub_inv_step:
  assumes "hub_inv s" and "\<And>c. e = Register c \<Longrightarrow> \<not> closed (send (heap s c))"
  shows "\<exists>s'. hub_step s e = Inr s' \<and> hub_inv s'"
proof (cases e)
  case (Register c)
  then show ?thesis
    using assms
    by (auto simp: hub_inv_def AList.distinct_update registered_def AList.update_conv')
next
  case (Unregister c)
  show ?thesis
  proof (cases "registered s c")
    case True
    then have "\<not> closed (send (heap s c))"
      using assms(1) by (simp add: hub_inv_def)
    then show ?thesis
      using assms(1) True Unregister
      by (auto simp: hub_inv_def chan_close_def AList.distinct_delete registered_def
                     AList.delete_conv')
  next
    case False
    then show ?thesis using assms(1) Unregister by simp
  qed
next
  case (Broadcast m)
  define s' where "s' = s\<lparr>clients := filter (\<lambda>kv. \<not> full (send (heap s (fst kv)))) (clients s),
            heap := (\<lambda>c. if registered s c then deliver m (heap s c) else heap s c)\<rparr>"
  have step: "hub_step s e = Inr s'"
    unfolding s'_def Broadcast by (rule hub_step_broadcast[OF assms(1)])
  have reg': "\<And>c. registered s' c \<longleftrightarrow> registered s c \<and> \<not> full (send (heap s c))"
    by (auto simp: registered_iff s'_def)
  have "distinct (map fst (clients s'))"
    using assms(1) by (simp add: s'_def hub_inv_def distinct_map_filter)
  moreover have "\<forall>c. registered s' c \<longrightarrow> \<not> closed (send (heap s' c))"
  proof (intro allI impI)
    fix c assume "registered s' c"
    then have c: "registered s c" "\<not> full (send (heap s c))"
      by (simp_all add: reg')
    then have "heap s' c = deliver m (heap s c)"
      by (simp add: s'_def)
    then show "\<not> closed (send (heap s' c))"
      using assms(1) c by (simp add: hub_inv_def deliver_def full_def)
  qed
  ultimately show ?thesis
    using step by (auto simp: hub_inv_def)
qed

lemma Run_preserves_inv:
  "hub_inv s \<Longrightarrow> admissible s es \<Longrightarrow> \<exists>s'. Run s es = Inr s' \<and> hub_inv s'"
proof (induction es arbitrary: s)
  case Nil
  then show ?case by simp
next
  case (Cons e es)
  obtain s1 where s1: "hub_step s e = Inr s1" "hub_inv s1"
    using hub_inv_step[of s e] Cons.prems by (auto split: event.splits)
  then have "admissible s1 es"
    using Cons.prems by simp
  then show ?case
    using Cons.IH[OF s1(2)] s1(1) by simp
qed

lemma broadcast_loop_closes:
  "broadcast_loop cs m s = Inr s' \<Longrightarrow>
     (\<forall>c. registered s' c \<longrightarrow> registered s c) \<and>
     (\<forall>c. \<not> closed (send (heap s c)) \<and> closed (send (heap s' c)) \<longrightarrow>
           c \<in> set cs \<and> \<not> registered s' c)"
proof (induction cs arbitrary: s)
  case Nil
  then show ?case by auto
next
  case (Cons d cs)
  show ?case
  proof (cases "chan_try_send (send (heap s d)) m")
    case (Inl p)
    then show ?thesis using Cons.prems by simp
  next
    case (Inr r)
    show ?thesis
    proof (cases r)
      case (Some ch')
      then have ch': "ch' = (send (heap s d))\<lparr>buf := buf (send (heap s d)) @ [m]\<rparr>"
        using Inr by (auto simp: chan_try_send_def split: if_splits)
      have "broadcast_loop cs m (set_send d ch' s) = Inr s'"
        using Cons.prems Inr Some by simp
      from Cons.IH[OF this] show ?thesis
        by (auto simp: ch' split: if_splits)
    next
      case None
      then obtain ch' where ch': "chan_close (send (heap s d)) = Inr ch'"
        using Cons.prems Inr by (auto split: sum.splits)
      then have cl: "ch' = (send (heap s d))\<lparr>closed := True\<rparr>"
        by (auto simp: chan_close_def split: if_splits)
      let ?s1 = "(set_send d ch' s)\<lparr>clients := AList.delete d (clients s)\<rparr>"
      have "broadcast_loop cs m ?s1 = Inr s'"
        using Cons.prems Inr None ch' by simp
      from Cons.IH[OF this]
      have A: "\<And>c. registered s' c \<Longrightarrow> registered ?s1 c"
        and B: "\<And>c. \<not> closed (send (heap ?s1 c)) \<Longrightarrow> closed (send (heap s' c)) \<Longrightarrow>
                  c \<in> set cs \<and> \<not> registered s' c"
        by blast+
      have r1: "\<And>c. registered ?s1 c \<longleftrightarrow> c \<noteq> d \<and> registered s c"
        by (auto simp: registered_def AList.delete_conv')
      have h1: "\<And>c. closed (send (heap ?s1 c)) \<longleftrightarrow> c = d \<or> closed (send (heap s c))"
        by (simp add: cl)
      show ?thesis
      proof (rule conjI; intro allI impI)
        fix c assume "registered s' c"
        then show "registered s c" using A r1 by blast
      next
        fix c assume c: "\<not> closed (send (heap s c)) \<and> closed (send (heap s' c))"
        show "c \<in> set (d # cs) \<and> \<not> registered s' c"
        proof (cases "c = d")
          case True
          then show ?thesis using A r1 by auto
        next
          case False
          then show ?thesis using B[of c] c h1 by auto
        qed
      qed
    qed
  qed
qed

lemma hub_step_closes:
  assumes "hub_step s e = Inr s'" "\<not> closed (send (heap s c))" "closed (send (heap s' c))"
  shows "registered s c \<and> \<not> registered s' c"
proof (cases e)
  case (Register d)
  then show ?thesis using assms by auto
next
  case (Unregister d)
  then show ?thesis
    using assms
    by (auto simp: registered_def AList.delete_conv' chan_close_def split: if_splits sum.splits)
next
  case (Broadcast m)
  then show ?thesis
    using assms broadcast_loop_closes[of "map fst (clients s)" m s s']
    by (auto simp: registered_iff)
qed

lemma hub_step_registered_mono:
  assumes "hub_step s e = Inr s'" "registered s' c"
  shows "registered s c \<or> e = Register c"
proof (cases e)
  case (Register d)
  then show ?thesis using assms by (auto simp: registered_def AList.update_conv' split: if_splits)
next
  case (Unregister d)
  then show ?thesis
    using assms by (auto simp: registered_def AList.delete_conv' split: if_splits sum.splits)
next
  case (Broadcast m)
  then show ?thesis
    using assms broadcast_loop_closes[of "map fst (clients s)" m s s'] by auto
qed

lemma fresh_registrations_admissible:
  "distinct (registrations es) \<Longrightarrow>
   \<forall>c \<in> set (registrations es). \<not> closed (send (heap s c)) \<and> \<not> registered s c \<Longrightarrow>
   admissible s es"
proof (induction es arbitrary: s)
  case Nil
  show ?case by simp
next
  case (Cons e es)
  have head: "case e of Register c \<Rightarrow> \<not> closed (send (heap s c)) | _ \<Rightarrow> True"
    using Cons.prems by (auto split: event.splits)
  have tail: "admissible s' es" if step: "hub_step s e = Inr s'" for s'
  proof (rule Cons.IH)
    show "distinct (registrations es)"
      using Cons.prems(1) by (cases e) auto
    show "\<forall>c \<in> set (registrations es). \<not> closed (send (heap s' c)) \<and> \<not> registered s' c"
    proof
      fix c assume c: "c \<in> set (registrations es)"
      then have old: "\<not> closed (send (heap s c))" "\<not> registered s c"
        using Cons.prems(2) by (cases e; auto)+
      have ne: "e \<noteq> Register c"
        using Cons.prems(1) c by (cases e) auto
      have "\<not> registered s' c"
        using hub_step_registered_mono[OF step, of c] old(2) ne by blast
      moreover have "\<not> closed (send (heap s' c))"
        using hub_step_closes[OF step old(1)] old(2) by blast
      ultimately show "\<not> closed (send (heap s' c)) \<and> \<not> registered s' c" by simp
    qed
  qed
  show ?case
    using head tail by (auto split: sum.splits)
qed

text \<open>
  Claim C4 fails for an event sequence that registers a client again after it was
  unregistered: the client is then registered with a closed queue, and its next
  unregistration closes the queue a second time, which panics.
\<close>

theorem reregistration_counterexample:
  "registered_with_closed_queue 0
     (Run (NewHub chat_heap) [Register 0, Unregister 0, Register 0]) \<and>
   Run (NewHub chat_heap) [Register 0, Unregister 0, Register 0, Unregister 0]
     = Inl CloseOfClosedChannel"
  by (simp add: registered_with_closed_queue_def NewHub_def chat_heap_def registered_def
                chan_close_def newClient_def make_chan_def)

text \<open>
  Claim C4, amended.  From a state that satisfies the invariant, every admissible event
  sequence (one in which no registration names a client whose queue is already closed)
  runs without a panic, so no queue is closed twice, and ends in a state where every
  registered client has an open queue.  In any state at all, a step of the hub that
  closes a queue removes its client, which was registered, from \<open>clients\<close>.
\<close>

theorem queue_closed_at_most_once:
  "(hub_inv s \<and> admissible s es \<longrightarrow> (\<exists>s'. Run s es = Inr s' \<and> hub_inv s')) \<and>
   (\<forall>e s1 s2 c. hub_step s1 e = Inr s2 \<and> \<not> closed (send (heap s1 c)) \<and> closed (send (heap s2 c))
        \<longrightarrow> registered s1 c \<and> \<not> registered s2 c)"
  using Run_preserves_inv hub_step_closes by blast

theorem queue_closed_at_most_once_witness:
  "hub_inv (NewHub chat_heap) \<and>
   admissible (NewHub chat_heap)
     [Register 0, Register 1, Broadcast ''hi'', Unregister 1, Unregister 1] \<and>
   (\<exists>s'. Run (NewHub chat_heap)
            [Register 0, Register 1, Broadcast ''hi'', Unregister 1, Unregister 1] = Inr s' \<and>
         hub_inv s') \<and>
   (\<exists>s2. hub_step chat_hub (Unregister 1) = Inr s2 \<and>
         \<not> closed (send (heap chat_hub 1)) \<and> closed (send (heap s2 1)) \<and>
         registered chat_hub 1 \<and> \<not> registered s2 1)"
proof -
  have inv: "hub_inv (NewHub chat_heap)"
    by (simp add: hub_inv_def NewHub_def registered_def)
  have adm: "admissible (NewHub chat_heap)
               [Register 0, Register 1, Broadcast ''hi'', Unregister 1, Unregister 1]"
    by (rule fresh_registrations_admissible)
       (simp_all add: NewHub_def chat_heap_def registered_def newClient_def make_chan_def)
  have step: "\<exists>s2. hub_step chat_hub (Unregister 1) = Inr s2 \<and>
         \<not> closed (send (heap chat_hub 1)) \<and> closed (send (heap s2 1))"
    by (simp add: chat_hub_def chat_heap_def registered_def chan_close_def newClient_def
                  make_chan_def)
  show ?thesis
    using inv adm step queue_closed_at_most_once[of "NewHub chat_heap"
          "[Register 0, Register 1, Broadcast ''hi'', Unregister 1, Unregister 1]"]
    by blast
qed

section \<open>The inbound pump\<close>

lemma ReadBytes_line:
  assumes "d \<notin> set payload"
  shows "ReadBytes d (payload @ d # rest) = Inr (payload @ [d], rest)"
proof -
  have all: "\<And>x. x \<in> set payload \<Longrightarrow> x \<noteq> d"
    using assms by auto
  have "dropWhile (\<lambda>b. b \<noteq> d) (payload @ d # rest) = d # rest"
    using all by (simp add: dropWhile_append2)
  moreover have "takeWhile (\<lambda>b. b \<noteq> d) (payload @ d # rest) = payload"
    using all by (simp add: takeWhile_append2)
  ultimately show ?thesis
    by (simp add: ReadBytes_def)
qed

lemma ReadBytes_fails:
  "d \<notin> set inp \<Longrightarrow> ReadBytes d inp = Inl ReadFailed"
proof -
  assume "d \<notin> set inp"
  then have "\<forall>x \<in> set inp. x \<noteq> d"
    by auto
  then have "dropWhile (\<lambda>b. b \<noteq> d) inp = []"
    by (simp add: dropWhile_eq_Nil_conv)
  then show ?thesis
    unfolding ReadBytes_def by (simp only: list.case)
qed

lemma ReadBytes_success:
  assumes "ReadBytes d inp = Inr (line, rest)"
  shows "\<exists>payload. d \<notin> set payload \<and> line = payload @ [d] \<and> inp = line @ rest"
proof -
  let ?P = "\<lambda>b. b \<noteq> d"
  obtain x where x: "dropWhile ?P inp = x # rest" "line = takeWhile ?P inp @ [x]"
    using assms by (auto simp: ReadBytes_def split: list.splits)
  have "\<not> ?P (hd (dropWhile ?P inp))"
    using x(1) hd_dropWhile[of ?P inp] by simp
  then have "x = d"
    using x(1) by simp
  moreover have "d \<notin> set (takeWhile ?P inp)"
    by (auto dest: set_takeWhileD)
  moreover have "inp = takeWhile ?P inp @ dropWhile ?P inp"
    by simp
  ultimately show ?thesis
    using x by (metis append.assoc append_Cons append_Nil)
qed

lemma readPump_loop_line:
  "nl \<notin> set payload \<Longrightarrow>
   readPump_loop nick (payload @ nl # rest)
     = Broadcast (format_message nick (payload @ [nl])) # readPump_loop nick rest"
  by (subst readPump_loop.simps) (simp add: ReadBytes_line)

lemma readPump_loop_eof:
  "nl \<notin> set inp \<Longrightarrow> readPump_loop nick inp = []"
  by (subst readPump_loop.simps) (simp add: ReadBytes_fails)

lemma readPump_loop_form:
  "e \<in> set (readPump_loop nick inp) \<Longrightarrow>
   \<exists>payload. nl \<notin> set payload \<and> e = Broadcast (format_message nick (payload @ [nl]))"
proof (induction nick inp rule: readPump_loop.induct)
  case (1 nick inp)
  show ?case
  proof (cases "ReadBytes nl inp")
    case (Inl err)
    then show ?thesis
      using "1.prems" by (subst (asm) readPump_loop.simps) simp
  next
    case (Inr r)
    obtain line rest where r: "r = (line, rest)"
      by (cases r)
    have unfold: "readPump_loop nick inp
                    = Broadcast (format_message nick line) # readPump_loop nick rest"
      using Inr r by (subst readPump_loop.simps) simp
    obtain payload where p: "nl \<notin> set payload" "line = payload @ [nl]"
      using ReadBytes_success[of nl inp line rest] Inr r by auto
    from "1.prems" unfold
    consider "e = Broadcast (format_message nick line)" | "e \<in> set (readPump_loop nick rest)"
      by auto
    then show ?thesis
    proof cases
      case 1
      then show ?thesis using p by blast
    next
      case 2
      have "ReadBytes nl inp = Inr (line, rest)"
        using Inr r by simp
      from "1.IH"[OF this refl 2] show ?thesis .
    qed
  qed
qed

text \<open>
  Claim C6.  The constant \<open>maxMessageSize\<close> is 1024, and the inbound pump does not use it:
  whatever the length of the line read, the pump broadcasts the bracketed nickname followed
  by the whole line, and goes on with the rest of the input.
\<close>

theorem readPump_does_not_enforce_maxMessageSize:
  "maxMessageSize = 1024 \<and>
   (nl \<notin> set payload \<longrightarrow>
      readPump c cl (payload @ nl # rest)
        = Broadcast (''['' @ nickname cl @ '']: '' @ payload @ [nl]) # readPump c cl rest)"
  by (simp add: maxMessageSize_def readPump_def readPump_loop_line format_message_def)

theorem readPump_does_not_enforce_maxMessageSize_witness:
  "nl \<notin> set (replicate 2000 (CHR ''a'')) \<and>
   maxMessageSize < length (replicate 2000 (CHR ''a'') @ [nl]) \<and>
   readPump 0 (newClient ''Ann'') (replicate 2000 (CHR ''a'') @ [nl])
     = [Broadcast (''[Ann]: '' @ replicate 2000 (CHR ''a'') @ [nl]), Unregister 0]"
proof -
  have line: "nl \<notin> set (replicate 2000 (CHR ''a''))"
    by (simp add: nl_def)
  have rest: "readPump 0 (newClient ''Ann'') [] = [Unregister 0]"
    by (simp add: readPump_def readPump_loop.simps ReadBytes_def)
  have long: "maxMessageSize < length (replicate 2000 (CHR ''a'') @ [nl])"
    by (simp add: maxMessageSize_def)
  show ?thesis
    using line long rest
      readPump_does_not_enforce_maxMessageSize
        [of "replicate 2000 (CHR ''a'')" 0 "newClient ''Ann''" "[]"]
    by (simp add: newClient_def)
qed

lemma broadcast_loop_queue:
  "broadcast_loop cs m s = Inr s' \<Longrightarrow>
   set (buf (send (heap s' c))) \<subseteq> set (buf (send (heap s c))) \<union> {m}"
proof (induction cs arbitrary: s)
  case Nil
  then show ?case by auto
next
  case (Cons d cs)
  show ?case
  proof (cases "chan_try_send (send (heap s d)) m")
    case (Inl p)
    then show ?thesis using Cons.prems by simp
  next
    case (Inr r)
    show ?thesis
    proof (cases r)
      case (Some ch')
      then have ch': "ch' = (send (heap s d))\<lparr>buf := buf (send (heap s d)) @ [m]\<rparr>"
        using Inr by (auto simp: chan_try_send_def split: if_splits)
      have "broadcast_loop cs m (set_send d ch' s) = Inr s'"
        using Cons.prems Inr Some by simp
      from Cons.IH[OF this] show ?thesis
        by (auto simp: ch' split: if_splits)
    next
      case None
      then obtain ch' where ch': "chan_close (send (heap s d)) = Inr ch'"
        using Cons.prems Inr by (auto split: sum.splits)
      then have cl: "ch' = (send (heap s d))\<lparr>closed := True\<rparr>"
        by (auto simp: chan_close_def split: if_splits)
      have "broadcast_loop cs m ((set_send d ch' s)\<lparr>clients := AList.delete d (clients s)\<rparr>) = Inr s'"
        using Cons.prems Inr None ch' by simp
      from Cons.IH[OF this] show ?thesis
        by (auto simp: cl split: if_splits)
    qed
  qed
qed

lemma hub_step_queue:
  assumes "hub_step s e = Inr s'" "m \<in> set (buf (send (heap s' c)))"
  shows "m \<in> set (buf (send (heap s c))) \<or> e = Broadcast m"
proof (cases e)
  case (Register d)
  then show ?thesis using assms by auto
next
  case (Unregister d)
  then show ?thesis
    using assms by (auto simp: chan_close_def split: if_splits sum.splits)
next
  case (Broadcast m')
  then show ?thesis
    using assms broadcast_loop_queue[of "map fst (clients s)" m' s s' c] by auto
qed

lemma Run_queue:
  "Run s es = Inr s' \<Longrightarrow> m \<in> set (buf (send (heap s' c))) \<Longrightarrow>
   m \<in> set (buf (send (heap s c))) \<or> Broadcast m \<in> set es"
proof (induction es arbitrary: s)
  case Nil
  then show ?case by simp
next
  case (Cons e es)
  obtain s1 where s1: "hub_step s e = Inr s1" "Run s1 es = Inr s'"
    using Cons.prems(1) by (auto split: sum.splits)
  from Cons.IH[OF s1(2) Cons.prems(2)]
  show ?case
    using hub_step_queue[OF s1(1), of m c] by auto
qed

lemma handshake_nickname:
  assumes "handleConnection ref ok hs = Inr (Joined cl es)"
  shows "nl \<notin> set (nickname cl)"
proof -
  obtain line rest where l: "ReadString nl hs = Inr (line, rest)"
      and sl: "slice_to line (int (length line) - 1) = Inr (nickname cl)"
    using assms
    by (auto simp: handleConnection_def newClient_def split: if_splits sum.splits)
  obtain payload where p: "nl \<notin> set payload" "line = payload @ [nl]"
    using ReadBytes_success[of nl hs line rest] l by (auto simp: ReadString_def)
  have "nickname cl = payload"
    using sl p(2) by (simp add: slice_to_def)
  then show ?thesis using p(1) by simp
qed

text \<open>
  Claim C8.  Each line that the inbound pump reads is broadcast as the nickname in
  brackets, a colon, a space and the line; every message that the pump broadcasts is of
  the form \<open>[nickname]: payload\<close> followed by a line feed, the payload holding no line
  feed; for a client that the handshake made, the message holds exactly one line
  feed, its last byte; and the hub puts into a queue only messages that were broadcast,
  byte for byte.
\<close>

theorem chat_message_format:
  "(\<forall>line rest. ReadBytes nl inp = Inr (line, rest) \<longrightarrow>
       readPump c cl inp = Broadcast (''['' @ nickname cl @ '']: '' @ line) # readPump c cl rest) \<and>
   (\<forall>m. Broadcast m \<in> set (readPump c cl inp) \<longrightarrow>
       (\<exists>payload. nl \<notin> set payload \<and> m = ''['' @ nickname cl @ '']: '' @ payload @ [nl])) \<and>
   (handleConnection ref ok hs = Inr (Joined cl es) \<longrightarrow>
      (\<forall>m. Broadcast m \<in> set (readPump c cl inp) \<longrightarrow> count_list m nl = 1 \<and> last m = nl)) \<and>
   (\<forall>evs s s' d m. Run s evs = Inr s' \<and> m \<in> set (buf (send (heap s' d))) \<longrightarrow>
      m \<in> set (buf (send (heap s d))) \<or> Broadcast m \<in> set evs)"
proof -
  have wrap: "\<forall>line rest. ReadBytes nl inp = Inr (line, rest) \<longrightarrow>
       readPump c cl inp = Broadcast (''['' @ nickname cl @ '']: '' @ line) # readPump c cl rest"
    by (auto simp: readPump_def format_message_def readPump_loop.simps[of _ inp])
  have form: "\<exists>payload. nl \<notin> set payload \<and> m = ''['' @ nickname cl @ '']: '' @ payload @ [nl]"
    if "Broadcast m \<in> set (readPump c cl inp)" for m
  proof -
    have "Broadcast m \<in> set (readPump_loop (nickname cl) inp)"
      using that by (simp add: readPump_def)
    from readPump_loop_form[OF this] show ?thesis
      by (simp add: format_message_def)
  qed
  have one: "count_list m nl = 1 \<and> last m = nl"
    if hs: "handleConnection ref ok hs = Inr (Joined cl es)"
      and m: "Broadcast m \<in> set (readPump c cl inp)" for m
  proof -
    obtain payload where p: "nl \<notin> set payload"
        "m = ''['' @ nickname cl @ '']: '' @ payload @ [nl]"
      using form[OF m] by blast
    have "count_list (nickname cl) nl = 0" "count_list payload nl = 0"
      using handshake_nickname[OF hs] p(1) by (simp_all add: count_list_0_iff)
    then show ?thesis
      by (simp add: p(2) nl_def)
  qed
  have queued: "\<forall>evs s s' d m. Run s evs = Inr s' \<and> m \<in> set (buf (send (heap s' d))) \<longrightarrow>
      m \<in> set (buf (send (heap s d))) \<or> Broadcast m \<in> set evs"
    using Run_queue by blast
  show ?thesis
    using wrap form one queued by blast
qed

theorem chat_message_format_witness:
  "handleConnection 0 True (''Ann'' @ [nl])
     = Inr (Joined (newClient ''Ann'') [Register 0, Broadcast (''Ann has joined the chat.'' @ [nl])]) \<and>
   ReadBytes nl (''hi'' @ [nl]) = Inr (''hi'' @ [nl], []) \<and>
   readPump 0 (newClient ''Ann'') (''hi'' @ [nl])
     = Broadcast (''[Ann]: hi'' @ [nl]) # readPump 0 (newClient ''Ann'') [] \<and>
   count_list (''[Ann]: hi'' @ [nl]) nl = 1 \<and> last (''[Ann]: hi'' @ [nl]) = nl \<and>
   (\<exists>s'. Run chat_hub [Broadcast (''[Ann]: hi'' @ [nl])] = Inr s' \<and>
         ''[Ann]: hi'' @ [nl] \<in> set (buf (send (heap s' 1))) \<and>
         ''[Ann]: hi'' @ [nl] \<notin> set (buf (send (heap chat_hub 1))))"
proof -
  have hs: "handleConnection 0 True (''Ann'' @ [nl])
     = Inr (Joined (newClient ''Ann'') [Register 0, Broadcast (''Ann has joined the chat.'' @ [nl])])"
    by (simp add: handleConnection_def ReadString_def ReadBytes_def slice_to_def nl_def)
  have rd: "ReadBytes nl (''hi'' @ [nl]) = Inr (''hi'' @ [nl], [])"
    by (simp add: ReadBytes_def nl_def)
  note fmt = chat_message_format[of "''hi'' @ [nl]" 0 "newClient ''Ann''" 0 True "''Ann'' @ [nl]"
      "[Register 0, Broadcast (''Ann has joined the chat.'' @ [nl])]"]
  have pump: "readPump 0 (newClient ''Ann'') (''hi'' @ [nl])
     = Broadcast (''[Ann]: hi'' @ [nl]) # readPump 0 (newClient ''Ann'') []"
    using fmt rd by (simp add: newClient_def)
  then have "Broadcast (''[Ann]: hi'' @ [nl]) \<in> set (readPump 0 (newClient ''Ann'') (''hi'' @ [nl]))"
    by simp
  then have one: "count_list (''[Ann]: hi'' @ [nl]) nl = 1 \<and> last (''[Ann]: hi'' @ [nl]) = nl"
    using fmt hs by blast
  have hub: "\<exists>s'. Run chat_hub [Broadcast (''[Ann]: hi'' @ [nl])] = Inr s' \<and>
         ''[Ann]: hi'' @ [nl] \<in> set (buf (send (heap s' 1))) \<and>
         ''[Ann]: hi'' @ [nl] \<notin> set (buf (send (heap chat_hub 1)))"
    by (simp add: chat_hub_def chat_heap_def newClient_def make_chan_def chan_try_send_def)
  show ?thesis
    using hs rd pump one hub by simp
qed

section \<open>Disconnection, the handshake and the constants\<close>

lemma broadcast_loop_frame:
  "broadcast_loop cs m s = Inr s' \<Longrightarrow> c \<notin> set cs \<Longrightarrow> heap s' c = heap s c"
proof (induction cs arbitrary: s)
  case Nil
  then show ?case by simp
next
  case (Cons d cs)
  then show ?case
    by (auto split: sum.splits option.splits)
qed

lemma hub_step_frame:
  assumes "hub_step s e = Inr s'" "\<not> registered s c" "e \<noteq> Register c"
  shows "heap s' c = heap s c \<and> \<not> registered s' c"
proof -
  have "\<not> registered s' c"
    using hub_step_registered_mono[OF assms(1), of c] assms(2,3) by blast
  moreover have "heap s' c = heap s c"
  proof (cases e)
    case (Register d)
    then show ?thesis using assms(1) by auto
  next
    case (Unregister d)
    then show ?thesis
      using assms(1,2) by (auto split: if_splits sum.splits)
  next
    case (Broadcast m)
    then show ?thesis
      using assms(1,2) broadcast_loop_frame[of "map fst (clients s)" m s s' c]
      by (simp add: registered_iff)
  qed
  ultimately show ?thesis by simp
qed

lemma Run_frame:
  "Run s es = Inr s' \<Longrightarrow> \<not> registered s c \<Longrightarrow> Register c \<notin> set es \<Longrightarrow>
   heap s' c = heap s c \<and> \<not> registered s' c"
proof (induction es arbitrary: s)
  case Nil
  then show ?case by simp
next
  case (Cons e es)
  obtain s1 where s1: "hub_step s e = Inr s1" "Run s1 es = Inr s'"
    using Cons.prems(1) by (auto split: sum.splits)
  have e: "e \<noteq> Register c" and es: "Register c \<notin> set es"
    using Cons.prems(3) by auto
  have 1: "heap s1 c = heap s c \<and> \<not> registered s1 c"
    using hub_step_frame[OF s1(1) Cons.prems(2) e] .
  then show ?case
    using Cons.IH[OF s1(2) _ es] by simp
qed

text \<open>
  Claim C5 fails on the scenario of the specification: Ann and Bo connect, Ann sends
  \<open>hi\<close>, Bo's stream closes.  Ann's queue then holds the two join messages and the chat
  line, and no leave notice.
\<close>

theorem leave_notice_counterexample:
  "queue_of 0
     (Run (NewHub chat_heap)
        (handshake_events (handleConnection 0 True (''Ann'' @ [nl])) @
         handshake_events (handleConnection 1 True (''Bo'' @ [nl])) @
         readPump_loop ''Ann'' (''hi'' @ [nl]) @
         readPump 1 (newClient ''Bo'') []))
   = Some [''Ann has joined the chat.'' @ [nl], ''Bo has joined the chat.'' @ [nl],
           ''[Ann]: hi'' @ [nl]]"
proof -
  have ann: "handshake_events (handleConnection 0 True (''Ann'' @ [nl]))
               = [Register 0, Broadcast (''Ann has joined the chat.'' @ [nl])]"
    by (simp add: handshake_events_def handleConnection_def ReadString_def ReadBytes_def
                  slice_to_def nl_def)
  have bo: "handshake_events (handleConnection 1 True (''Bo'' @ [nl]))
               = [Register 1, Broadcast (''Bo has joined the chat.'' @ [nl])]"
    by (simp add: handshake_events_def handleConnection_def ReadString_def ReadBytes_def
                  slice_to_def nl_def)
  have hi: "readPump_loop ''Ann'' (''hi'' @ [nl]) = [Broadcast (''[Ann]: hi'' @ [nl])]"
    using readPump_loop_line[of "''hi''" "''Ann''" "[]"] readPump_loop_eof[of "[]" "''Ann''"]
    by (simp add: format_message_def nl_def)
  have bye: "readPump 1 (newClient ''Bo'') [] = [Unregister 1]"
    by (simp add: readPump_def readPump_loop_eof)
  show ?thesis
    unfolding ann bo hi bye
    by (simp add: queue_of_def NewHub_def chat_heap_def newClient_def make_chan_def
                  chan_try_send_def chan_close_def registered_def)
qed

text \<open>
  Claim C5, amended.  When the stream of a registered client ends before another full
  line, its inbound pump sends the hub one event, the unregistration of the client.  The
  hub then removes the client from \<open>clients\<close> and closes its queue, leaving the buffer
  as it was; every other client is exactly as before, with nothing enqueued and its
  registration unchanged, so no leave notice is produced; and whatever events the hub
  processes afterwards, short of registering the client again, its \<open>Client\<close> object and
  queue are never touched and it stays unregistered.
\<close>

theorem disconnect_sends_no_leave_notice:
  assumes "hub_inv s" and "registered s c" and "nl \<notin> set inp"
  shows "\<exists>s'. Run s (readPump c cl inp) = Inr s' \<and>
           \<not> registered s' c \<and> closed (send (heap s' c)) \<and>
           heap s' c = (heap s c)\<lparr>send := (send (heap s c))\<lparr>closed := True\<rparr>\<rparr> \<and>
           (\<forall>d. d \<noteq> c \<longrightarrow> heap s' d = heap s d \<and> registered s' d = registered s d) \<and>
           (\<forall>es s''. Register c \<notin> set es \<and> Run s' es = Inr s'' \<longrightarrow>
                 heap s'' c = heap s' c \<and> \<not> registered s'' c)"
proof -
  have events: "readPump c cl inp = [Unregister c]"
    using assms(3) by (simp add: readPump_def readPump_loop_eof)
  have "open": "\<not> closed (send (heap s c))"
    using assms(1,2) by (simp add: hub_inv_def)
  define s' where "s' = (set_send c ((send (heap s c))\<lparr>closed := True\<rparr>) s)
                          \<lparr>clients := AList.delete c (clients s)\<rparr>"
  have step: "hub_step s (Unregister c) = Inr s'"
    using assms(2) "open" by (simp add: chan_close_def s'_def)
  have run: "Run s (readPump c cl inp) = Inr s'"
    using step by (simp add: events)
  have gone: "\<not> registered s' c"
    by (simp add: s'_def registered_def AList.delete_conv')
  have queue: "closed (send (heap s' c)) \<and>
               heap s' c = (heap s c)\<lparr>send := (send (heap s c))\<lparr>closed := True\<rparr>\<rparr>"
    by (simp add: s'_def)
  have others: "\<forall>d. d \<noteq> c \<longrightarrow> heap s' d = heap s d \<and> registered s' d = registered s d"
    by (simp add: s'_def registered_def AList.delete_conv')
  have later: "\<forall>es s''. Register c \<notin> set es \<and> Run s' es = Inr s'' \<longrightarrow>
                 heap s'' c = heap s' c \<and> \<not> registered s'' c"
    using Run_frame[OF _ gone] by blast
  show ?thesis
    using run gone queue others later by blast
qed

theorem disconnect_sends_no_leave_notice_witness:
  "hub_inv chat_hub \<and> registered chat_hub 1 \<and> nl \<notin> set [] \<and>
   (\<exists>s'. Run chat_hub (readPump 1 (newClient ''Bo'') []) = Inr s' \<and>
      \<not> registered s' 1 \<and> closed (send (heap s' 1)) \<and> \<not> closed (send (heap chat_hub 1)) \<and>
      registered s' 0 \<and> buf (send (heap s' 0)) = [] \<and>
      (\<exists>s''. Run s' [Broadcast ''hi''] = Inr s'' \<and> heap s'' 1 = heap s' 1 \<and>
             \<not> registered s'' 1))"
proof -
  have inv: "hub_inv chat_hub"
    by (simp add: hub_inv_def chat_hub_def chat_heap_def registered_def newClient_def
                  make_chan_def)
  have bo: "registered chat_hub 1"
    by (simp add: chat_hub_def registered_def)
  have was_open: "\<not> closed (send (heap chat_hub 1))"
    by (simp add: chat_hub_def chat_heap_def newClient_def make_chan_def)
  have eof: "nl \<notin> set []"
    by simp
  obtain s' where s': "Run chat_hub (readPump 1 (newClient ''Bo'') []) = Inr s'"
      "\<not> registered s' 1" "closed (send (heap s' 1))"
      "\<forall>d. d \<noteq> 1 \<longrightarrow> heap s' d = heap chat_hub d \<and> registered s' d = registered chat_hub d"
      "\<forall>es s''. Register 1 \<notin> set es \<and> Run s' es = Inr s'' \<longrightarrow>
                 heap s'' 1 = heap s' 1 \<and> \<not> registered s'' 1"
    using disconnect_sends_no_leave_notice[OF inv bo eof, of "newClient ''Bo''"] by blast
  have ann: "registered chat_hub 0 \<and> buf (send (heap chat_hub 0)) = []"
    by (simp add: chat_hub_def chat_heap_def registered_def newClient_def make_chan_def)
  have ev: "readPump 1 (newClient ''Bo'') [] = [Unregister 1]"
    by (simp add: readPump_def readPump_loop_eof)
  obtain t where t: "hub_step chat_hub (Unregister 1) = Inr t" "hub_inv t"
    using hub_inv_step[OF inv, of "Unregister 1"] by auto
  have "Run chat_hub [Unregister 1] = Inr t"
    by (simp only: Run.simps t(1) sum.case)
  with s'(1)[unfolded ev] have "s' = t"
    by simp
  then have inv': "hub_inv s'"
    using t(2) by simp
  obtain s'' where s'': "Run s' [Broadcast ''hi''] = Inr s''"
    using hub_inv_step[OF inv', of "Broadcast ''hi''"] by auto
  have "Register 1 \<notin> set [Broadcast ''hi'']"
    by simp
  then have "heap s'' 1 = heap s' 1 \<and> \<not> registered s'' 1"
    using s'(5) s'' by blast
  then show ?thesis
    using inv bo was_open s' ann s'' by auto
qed

text \<open>
  Claim C7 on the code.  The handshake drops the last byte of the first line and nothing
  else: a name typed with a trailing space keeps the space, and a line ended by carriage
  return and line feed keeps the carriage return.
\<close>

theorem handshake_keeps_trailing_whitespace:
  "handleConnection 0 True (''Ann '' @ [nl])
     = Inr (Joined (newClient ''Ann '')
              [Register 0, Broadcast (''Ann  has joined the chat.'' @ [nl])]) \<and>
   handleConnection 1 True (''Bo'' @ [CHR 0x0D, nl])
     = Inr (Joined (newClient (''Bo'' @ [CHR 0x0D]))
              [Register 1, Broadcast (''Bo'' @ [CHR 0x0D] @ '' has joined the chat.'' @ [nl])])"
  by (simp add: handleConnection_def ReadString_def ReadBytes_def slice_to_def nl_def)

text \<open>
  Claim C9.  The queue of a new client has capacity 256; the read deadline \<open>pongWait\<close> is
  60 seconds; the keepalive period \<open>pingPeriod\<close> is 54 seconds, nine tenths of the read
  deadline and less than it; the write deadline \<open>writeWait\<close> is 10 seconds.
\<close>

theorem timing_and_capacity_constants:
  "cap (send (newClient nick)) = 256 \<and> pongWait = 60 * second \<and>
   pingPeriod = 54 * second \<and> 10 * pingPeriod = 9 * pongWait \<and> pingPeriod < pongWait \<and>
   writeWait = 10 * second"
  by (simp add: newClient_def make_chan_def pongWait_def pingPeriod_def writeWait_def second_def)

text \<open>
  Claim C10.  The handshake never panics.  A line that \<open>ReadString\<close> returns without an
  error has at least one byte and ends with the line feed, so the slice that drops its
  last byte is in bounds.  A client that sends a bare line feed gets the empty nickname,
  and the handshake sends its registration, which the hub accepts.
\<close>

theorem handshake_slice_never_panics:
  "(\<forall>p. handleConnection ref ok inp \<noteq> Inl p) \<and>
   (\<forall>line rest. ReadString nl inp = Inr (line, rest) \<longrightarrow>
       1 \<le> length line \<and> last line = nl \<and>
       slice_to line (int (length line) - 1) = Inr (butlast line)) \<and>
   handleConnection ref True (nl # after)
     = Inr (Joined (newClient []) [Register ref, Broadcast ('' has joined the chat.'' @ [nl])]) \<and>
   (\<forall>s. \<exists>s'. hub_step s (Register ref) = Inr s' \<and> registered s' ref)"
proof -
  have line: "1 \<le> length line \<and> last line = nl \<and>
              slice_to line (int (length line) - 1) = Inr (butlast line)"
    if rd: "ReadString nl inp = Inr (line, rest)" for line rest
  proof -
    obtain payload where "line = payload @ [nl]"
      using ReadBytes_success[of nl inp line rest] rd by (auto simp: ReadString_def)
    then show ?thesis
      by (simp add: slice_to_def)
  qed
  have no_panic: "handleConnection ref ok inp \<noteq> Inl p" for p
    using line by (auto simp: handleConnection_def split: sum.splits)
  have bare: "handleConnection ref True (nl # after)
     = Inr (Joined (newClient []) [Register ref, Broadcast ('' has joined the chat.'' @ [nl])])"
    by (simp add: handleConnection_def ReadString_def ReadBytes_def slice_to_def)
  have reg: "\<exists>s'. hub_step s (Register ref) = Inr s' \<and> registered s' ref" for s
    by (auto simp: registered_def AList.update_conv')
  show ?thesis
    using line no_panic bare reg by blast
qed

theorem handshake_slice_never_panics_witness:
  "ReadString nl [nl] = Inr ([nl], []) \<and>
   slice_to [nl] (int (length [nl]) - 1) = Inr [] \<and>
   handleConnection 0 True [nl]
     = Inr (Joined (newClient []) [Register 0, Broadcast ('' has joined the chat.'' @ [nl])])"
proof -
  have rd: "ReadString nl [nl] = Inr ([nl], [])"
    by (simp add: ReadString_def ReadBytes_def)
  show ?thesis
    using rd handshake_slice_never_panics[of 0 True "[nl]" "[]"] by auto
qed

end
